theory Spec2Isabelle
  imports Main
begin

section \<open>Characters and text lines\<close>

text \<open>
  A Python \<open>str\<close> is a sequence of code points. A line of the dump is modelled as a
  \<^typ>\<open>string\<close> whose characters are the code points U+0000 .. U+00FF (what
  \<open>open(args.input)\<close> yields for any file under an ISO-8859-1 locale, and for an ASCII
  file under every locale). The three tables below are Python's on that range.
\<close>

definition newline :: char where
  "newline = CHR 0x0A"

definition backtick :: char where
  "backtick = CHR 0x60"

text \<open>\<open>\w\<close> of a \<open>str\<close> pattern: \<open>c.isalnum() or c == '_'\<close>.\<close>

definition is_word :: "char \<Rightarrow> bool" where
  "is_word c =
     (let k = (of_char c :: nat) in
        (48 \<le> k \<and> k \<le> 57) \<or> (65 \<le> k \<and> k \<le> 90) \<or> k = 95 \<or> (97 \<le> k \<and> k \<le> 122) \<or>
        k = 170 \<or> k = 178 \<or> k = 179 \<or> k = 181 \<or> k = 185 \<or> k = 186 \<or>
        (188 \<le> k \<and> k \<le> 190) \<or> (192 \<le> k \<and> k \<le> 214) \<or> (216 \<le> k \<and> k \<le> 246) \<or>
        (248 \<le> k \<and> k \<le> 255))"

text \<open>
  The lower-case mapping that \<open>re.IGNORECASE\<close> applies to a character of the text before
  comparing it with a literal of the pattern.
\<close>

definition tolower :: "char \<Rightarrow> char" where
  "tolower c =
     (let k = (of_char c :: nat) in
        if (65 \<le> k \<and> k \<le> 90) \<or> (192 \<le> k \<and> k \<le> 214) \<or> (216 \<le> k \<and> k \<le> 222)
        then char_of (k + 32) else c)"

definition ci_eq :: "char \<Rightarrow> char \<Rightarrow> bool" where
  "ci_eq p c = (tolower c = tolower p)"

text \<open>
  \<open>str.upper()\<close>, one character at a time. \<open>None\<close>: the upper-case form lies outside
  the modelled range (U+00B5 gives U+039C, U+00FF gives U+0178), so the upper-cased string
  equals no string of the model.
\<close>

definition upper_char :: "char \<Rightarrow> string option" where
  "upper_char c =
     (let k = (of_char c :: nat) in
        if k = 181 \<or> k = 255 then None
        else if k = 223 then Some ''SS''
        else if (97 \<le> k \<and> k \<le> 122) \<or> (224 \<le> k \<and> k \<le> 246) \<or> (248 \<le> k \<and> k \<le> 254)
        then Some [char_of (k - 32)]
        else Some [c])"

fun upper :: "string \<Rightarrow> string option" where
  "upper [] = Some []"
| "upper (c # s) =
     (case upper_char c of
        None \<Rightarrow> None
      | Some u \<Rightarrow> (case upper s of None \<Rightarrow> None | Some v \<Rightarrow> Some (u @ v)))"

text \<open>\<open>name.upper() in excluded\<close>.\<close>

definition upper_in :: "string \<Rightarrow> string list \<Rightarrow> bool" where
  "upper_in name excluded =
     (case upper name of None \<Rightarrow> False | Some u \<Rightarrow> u \<in> set excluded)"

section \<open>The three regular expressions\<close>

text \<open>A literal of the pattern matched at the head of the text, ignoring case.\<close>

fun ci_prefix :: "string \<Rightarrow> string \<Rightarrow> bool" where
  "ci_prefix [] s = True"
| "ci_prefix (p # ps) [] = False"
| "ci_prefix (p # ps) (c # cs) = (ci_eq p c \<and> ci_prefix ps cs)"

text \<open>
  \<open>.*$\<close> at the head of the text: the greedy \<open>.*\<close> takes every character up to the first
  newline (\<open>.\<close> matches anything but a newline), and \<open>$\<close>, without \<open>re.MULTILINE\<close>,
  matches at the end of the text or just before a newline that ends it.
\<close>

definition dot_star_eol :: "string \<Rightarrow> bool" where
  "dot_star_eol s =
     (let r = dropWhile (\<lambda>c. c \<noteq> newline) s in r = [] \<or> r = [newline])"

text \<open>
  \<open>`)(\w+)(`.*$)\<close> at the head of the text; the result is group 2. The greedy \<open>\w+\<close>
  takes the whole run of word characters: a shorter run is followed by a word character,
  never by the backtick.
\<close>

definition quoted_name :: "string \<Rightarrow> string option" where
  "quoted_name s =
     (case s of
        [] \<Rightarrow> None
      | c # t \<Rightarrow>
          if c \<noteq> backtick then None
          else
            let w = takeWhile is_word t; r = dropWhile is_word t in
            if w = [] then None
            else
              (case r of
                 [] \<Rightarrow> None
               | d # u \<Rightarrow> if d = backtick \<and> dot_star_eol u then Some w else None))"

text \<open>
  The greedy \<open>.*\<close> followed by the rest \<open>k\<close> of a pattern: the longest run of characters
  other than newline is tried first, then each shorter one.
\<close>

fun dot_star :: "(string \<Rightarrow> 'a option) \<Rightarrow> string \<Rightarrow> 'a option" where
  "dot_star k [] = k []"
| "dot_star k (c # s) =
     (if c = newline then k (c # s)
      else (case dot_star k s of Some r \<Rightarrow> Some r | None \<Rightarrow> k (c # s)))"

text \<open>
  \<open>re.compile(r'(^KEYWORD.*`)(\w+)(`.*$)', re.IGNORECASE).search(line)\<close>, reduced to
  \<open>groups()[1]\<close>, the only group the program reads. \<open>^\<close> anchors the search at the
  first character.
\<close>

definition marker_re :: "string \<Rightarrow> string \<Rightarrow> string option" where
  "marker_re keyword line =
     (if ci_prefix keyword line then dot_star quoted_name (drop (length keyword) line)
      else None)"

definition database_re :: "string \<Rightarrow> string option" where
  "database_re line = marker_re ''CREATE DATABASE'' line"

definition table_re :: "string \<Rightarrow> string option" where
  "table_re line = marker_re ''CREATE TABLE'' line"

text \<open>\<open>myisam_re = re.compile(r'MyISAM', re.IGNORECASE)\<close>: a match at the head of the text.\<close>

definition myisam_at :: "string \<Rightarrow> bool" where
  "myisam_at s = ci_prefix ''MyISAM'' s"

text \<open>\<open>myisam_re.search(line)\<close>, as a truth value.\<close>

fun myisam_re_search :: "string \<Rightarrow> bool" where
  "myisam_re_search [] = False"
| "myisam_re_search (c # s) = (myisam_at (c # s) \<or> myisam_re_search s)"

text \<open>
  \<open>myisam_re.sub(repl, line)\<close>: the leftmost matches that do not overlap are replaced,
  scanning from the left; after a match the scan resumes behind its six characters.
\<close>

fun myisam_re_sub :: "string \<Rightarrow> string \<Rightarrow> string" where
  "myisam_re_sub repl [] = []"
| "myisam_re_sub repl (c # s) =
     (if myisam_at (c # s) then repl @ myisam_re_sub repl (drop 5 s)
      else c # myisam_re_sub repl s)"

section \<open>ProcessFiles\<close>

datatype error =
    AttributeError
  | UnboundLocalError string
  | FileNotFoundError string

text \<open>The messages of \<open>logging\<close>, with the values they are formatted from.\<close>

datatype event =
    Converting string string bool
  | AlreadyExists string
  | OpenedForReading string
  | OpenedForWriting string
  | FoundDatabase nat string bool
  | FoundTable nat string
  | Changing nat "string option" string string string
  | Summary nat nat nat

text \<open>
  The local variables of \<open>ProcessFiles\<close>, the chunks written to \<open>outfile\<close> and the
  messages logged. \<open>None\<close> in \<open>loop_n\<close> and \<open>table\<close> is a local variable that has
  not been bound yet; \<open>None\<close> in \<open>database\<close> is Python's \<open>None\<close>.
\<close>

record state =
  loop_n :: "nat option"
  database :: "string option"
  table :: "string option"
  isexcluded :: bool
  preserved :: nat
  changed :: nat
  outfile :: "string list"
  logged :: "event list"

type_synonym result = "(error \<times> state) + state"

text \<open>Lines 87 to 92: the schema marker.\<close>

definition found_database :: "string list \<Rightarrow> nat \<Rightarrow> string \<Rightarrow> state \<Rightarrow> state" where
  "found_database excluded i line s =
     (case database_re line of
        None \<Rightarrow> s
      | Some d \<Rightarrow>
          s\<lparr>database := Some d, isexcluded := upper_in d excluded,
            logged := logged s @ [FoundDatabase (i + 1) d (upper_in d excluded)]\<rparr>)"

text \<open>
  Lines 94 to 99: the table marker. \<open>database.upper()\<close> raises \<open>AttributeError\<close> while
  \<open>database\<close> is \<open>None\<close>; \<open>table\<close> has been assigned by then.
\<close>

definition found_table :: "string list \<Rightarrow> nat \<Rightarrow> string \<Rightarrow> state \<Rightarrow> result" where
  "found_table excluded i line s =
     (case table_re line of
        None \<Rightarrow> Inr s
      | Some t \<Rightarrow>
          (case database s of
             None \<Rightarrow> Inl (AttributeError, s\<lparr>table := Some t\<rparr>)
           | Some d \<Rightarrow>
               Inr (s\<lparr>table := Some t, isexcluded := upper_in d excluded,
                      logged := logged s @ [FoundTable (i + 1) t]\<rparr>)))"

text \<open>
  Lines 101 to 109: the line is written, changed or not. The message of line 103 is
  formatted, before the write, from \<open>table\<close>, which raises \<open>UnboundLocalError\<close> when no
  table marker has bound it. The message is recorded with the two lines as they are,
  ahead of \<open>rstrip()\<close>.
\<close>

definition write_line :: "string \<Rightarrow> nat \<Rightarrow> string \<Rightarrow> state \<Rightarrow> result" where
  "write_line repl i line s =
     (if \<not> isexcluded s \<and> myisam_re_search line then
        (let newline' = myisam_re_sub repl line in
           case table s of
             None \<Rightarrow> Inl (UnboundLocalError ''table'', s)
           | Some t \<Rightarrow>
               Inr (s\<lparr>logged := logged s @ [Changing (i + 1) (database s) t line newline'],
                      outfile := outfile s @ [newline'],
                      changed := changed s + 1\<rparr>))
      else Inr (s\<lparr>outfile := outfile s @ [line], preserved := preserved s + 1\<rparr>))"

text \<open>The body of the loop for the line of index \<open>i\<close>.\<close>

definition body :: "string list \<Rightarrow> nat \<Rightarrow> string \<Rightarrow> state \<Rightarrow> result" where
  "body excluded i line s =
     (case found_table excluded i line
             (found_database excluded i line (s\<lparr>loop_n := Some i\<rparr>)) of
        Inl e \<Rightarrow> Inl e
      | Inr s' \<Rightarrow> write_line ''InnoDB'' i line s')"

text \<open>\<open>for n, line in enumerate(infile)\<close>, from index \<open>i\<close> on; an error ends the loop.\<close>

fun loop :: "string list \<Rightarrow> nat \<Rightarrow> string list \<Rightarrow> state \<Rightarrow> result" where
  "loop excluded i [] s = Inr s"
| "loop excluded i (line # rest) s =
     (case body excluded i line s of
        Inl e \<Rightarrow> Inl e
      | Inr s' \<Rightarrow> loop excluded (i + 1) rest s')"

text \<open>Lines 81 to 84, with nothing written to \<open>outfile\<close> yet.\<close>

definition init :: state where
  "init =
     \<lparr>loop_n = None, database = None, table = None, isexcluded = True,
      preserved = 0, changed = 0, outfile = [], logged = []\<rparr>"

text \<open>Line 110: the summary reads \<open>n\<close>, which is unbound when the loop ran no iteration.\<close>

definition summary :: "state \<Rightarrow> result" where
  "summary s =
     (case loop_n s of
        None \<Rightarrow> Inl (UnboundLocalError ''n'', s)
      | Some k \<Rightarrow> Inr (s\<lparr>logged := logged s @ [Summary (k + 1) (changed s) (preserved s)]\<rparr>))"

text \<open>
  \<open>ProcessFiles(infile, outfile, excluded)\<close>: \<open>infile\<close> is the sequence of lines that
  iterating the file object yields (any list of strings is admitted here; \<open>readlines\<close>
  below gives those of a file); the chunks written to \<open>outfile\<close>, a file just opened
  for writing, are returned in the state, also when the run ends in an error.
\<close>

definition ProcessFiles :: "string list \<Rightarrow> string list \<Rightarrow> result" where
  "ProcessFiles infile excluded =
     (case loop excluded 0 infile init of
        Inl e \<Rightarrow> Inl e
      | Inr s \<Rightarrow> summary s)"

text \<open>The state a run ends in, with or without an error; whether it ended without one.\<close>

fun final :: "result \<Rightarrow> state" where
  "final (Inl (e, s)) = s"
| "final (Inr s) = s"

fun completed :: "result \<Rightarrow> bool" where
  "completed (Inl e) = False"
| "completed (Inr s) = True"

section \<open>The script\<close>

record args =
  verbose :: bool
  force :: bool
  input_arg :: string
  output_arg :: string

text \<open>The files that exist, by path, with their contents.\<close>

type_synonym filesystem = "string \<Rightarrow> string option"

definition carriage_return :: char where
  "carriage_return = CHR 0x0D"

text \<open>
  Reading in text mode with the default \<open>newline=None\<close>: \<open>\r\n\<close> and \<open>\r\<close> are
  translated to \<open>\n\<close>.
\<close>

fun universal_newlines :: "string \<Rightarrow> string" where
  "universal_newlines [] = []"
| "universal_newlines [c] = [if c = carriage_return then newline else c]"
| "universal_newlines (c # d # s) =
     (if c = carriage_return then
        (if d = newline then newline # universal_newlines s
         else newline # universal_newlines (d # s))
      else c # universal_newlines (d # s))"

text \<open>Iterating a text file: each line keeps its newline; the last line may have none.\<close>

fun split_lines :: "string \<Rightarrow> string \<Rightarrow> string list" where
  "split_lines acc [] = (if acc = [] then [] else [acc])"
| "split_lines acc (c # s) =
     (if c = newline then (acc @ [c]) # split_lines [] s else split_lines (acc @ [c]) s)"

definition readlines :: "string \<Rightarrow> string list" where
  "readlines contents = split_lines [] (universal_newlines contents)"

text \<open>
  What a run of the script leaves behind: the files, the paths it opened, the messages
  logged, the exception that ended it (if any) and the exit status of the interpreter
  (0 when the script runs to its end, 1 after an uncaught exception).
\<close>

record outcome =
  files :: filesystem
  opened :: "string list"
  messages :: "event list"
  raised :: "error option"
  exit_status :: nat

text \<open>\<open>logging.debug\<close> under \<open>SetupLogging(verbose)\<close>.\<close>

definition debug :: "bool \<Rightarrow> event \<Rightarrow> event list" where
  "debug v e = (if v then [e] else [])"

text \<open>
  Lines 115 to 130, from the parsed arguments on. \<open>os.path.exists\<close> is membership in
  the file system; \<open>open(args.output, 'w')\<close> creates or truncates the file and, on a
  POSIX system, stores the chunks written as they are; the \<open>with\<close> statement closes
  both files also when \<open>ProcessFiles\<close> raises. \<open>[e.upper() for e in excluded]\<close> is
  \<open>List.map_filter upper excluded\<close>, here \<open>['MYSQL']\<close>. The script calls \<open>sys.exit\<close>
  on no path, so its exit status is the interpreter's.
\<close>

definition main :: "args \<Rightarrow> filesystem \<Rightarrow> outcome" where
  "main a fs =
     (let log0 = debug (verbose a) (Converting (input_arg a) (output_arg a) (force a));
          excluded = [''mysql'']
      in
        if fs (output_arg a) \<noteq> None \<and> \<not> force a then
          \<lparr>files = fs, opened = [], messages = log0 @ [AlreadyExists (output_arg a)],
           raised = None, exit_status = 0\<rparr>
        else
          (case fs (input_arg a) of
             None \<Rightarrow>
               \<lparr>files = fs, opened = [], messages = log0,
                raised = Some (FileNotFoundError (input_arg a)), exit_status = 1\<rparr>
           | Some _ \<Rightarrow>
               (let fs1 = fs(output_arg a \<mapsto> []);
                    infile = readlines (case fs1 (input_arg a) of None \<Rightarrow> [] | Some c \<Rightarrow> c);
                    r = ProcessFiles infile (List.map_filter upper excluded);
                    log1 = log0 @ debug (verbose a) (OpenedForReading (input_arg a))
                             @ debug (verbose a) (OpenedForWriting (output_arg a))
                             @ logged (final r)
                in
                  \<lparr>files = fs1(output_arg a \<mapsto> concat (outfile (final r))),
                   opened = [input_arg a, output_arg a],
                   messages = log1,
                   raised = (case r of Inl (e, s) \<Rightarrow> Some e | Inr s \<Rightarrow> None),
                   exit_status = (if completed r then 0 else 1)\<rparr>)))"

section \<open>Notions used in the proofs\<close>

text \<open>An output line is the input line, or the input line converted.\<close>

definition same_or_converted :: "string \<Rightarrow> string \<Rightarrow> bool" where
  "same_or_converted w l = (w = l \<or> w = myisam_re_sub ''InnoDB'' l)"

text \<open>
  A pattern in which no match can begin inside the replacement \<open>InnoDB\<close>: where it
  accepts \<open>I\<close>, it goes on and does not accept \<open>n\<close> next.
\<close>

fun no_In :: "string \<Rightarrow> bool" where
  "no_In [] = True"
| "no_In (a # q) = ((\<not> ci_eq a CHR ''I'' \<or> (q \<noteq> [] \<and> \<not> ci_eq (hd q) CHR ''n'')) \<and> no_In q)"

text \<open>A keyword no character of which can begin a match of \<open>MyISAM\<close>.\<close>

fun no_M :: "string \<Rightarrow> bool" where
  "no_M [] = True"
| "no_M (a # q) = (\<not> ci_eq a CHR ''M'' \<and> no_M q)"

text \<open>
  The character classes the marker patterns tell apart behind the keyword: newline,
  backtick, word character.
\<close>

definition same_class :: "char \<Rightarrow> char \<Rightarrow> bool" where
  "same_class a b =
     ((a = newline \<longleftrightarrow> b = newline) \<and> (a = backtick \<longleftrightarrow> b = backtick) \<and>
      (is_word a \<longleftrightarrow> is_word b))"

text \<open>
  What links the state \<open>s1\<close> of a run with the state \<open>s2\<close> of a second run that reads
  the lines the first has written so far.
\<close>

definition rerun_inv :: "string list \<Rightarrow> state \<Rightarrow> state \<Rightarrow> bool" where
  "rerun_inv ex s1 s2 =
     ((case database s1 of None \<Rightarrow> True | Some d \<Rightarrow> isexcluded s1 = upper_in d ex) \<and>
      (if isexcluded s1 then isexcluded s2 \<and> database s2 = database s1
       else database s1 \<noteq> None \<and> database s2 \<noteq> None))"

text \<open>
  The lines that iterating a text file can yield, as far as line ends go: no line is
  empty, a newline stands only at the end of a line, and every line but the last has one.
\<close>

fun proper :: "string list \<Rightarrow> bool" where
  "proper [] = True"
| "proper [l] = (l \<noteq> [] \<and> newline \<notin> set (butlast l))"
| "proper (l # m # ls) =
     (l \<noteq> [] \<and> newline \<notin> set (butlast l) \<and> last l = newline \<and> proper (m # ls))"

text \<open>Two lines with newlines at the same places.\<close>

definition same_breaks :: "string \<Rightarrow> string \<Rightarrow> bool" where
  "same_breaks w l = (map (\<lambda>c. c = newline) w = map (\<lambda>c. c = newline) l)"

text \<open>Every table marker of the input has a schema marker on an earlier line.\<close>

definition schema_first :: "string list \<Rightarrow> bool" where
  "schema_first ls =
     (\<forall>k<length ls. table_re (ls ! k) \<noteq> None \<longrightarrow> (\<exists>j<k. database_re (ls ! j) \<noteq> None))"

section \<open>Sample inputs\<close>

text \<open>A dump of one schema that is not excluded, and the state its loop ends in.\<close>

definition appdb_dump :: "string list" where
  "appdb_dump =
     [''CREATE DATABASE `appdb`;\<newline>'', ''CREATE TABLE `t` (\<newline>'',
      '') ENGINE=MyISAM;\<newline>'']"

definition appdb_end :: state where
  "appdb_end =
     \<lparr>loop_n = Some 2, database = Some ''appdb'', table = Some ''t'', isexcluded = False,
      preserved = 2, changed = 1,
      outfile = [''CREATE DATABASE `appdb`;\<newline>'', ''CREATE TABLE `t` (\<newline>'',
                 '') ENGINE=InnoDB;\<newline>''],
      logged = [FoundDatabase 1 ''appdb'' False, FoundTable 2 ''t'',
                Changing 3 (Some ''appdb'') ''t'' '') ENGINE=MyISAM;\<newline>''
                  '') ENGINE=InnoDB;\<newline>'']\<rparr>"

text \<open>The marker line of the system schema, in mixed case, and the lines of its table.\<close>

definition mysql_marker :: string where
  "mysql_marker = ''CREATE DATABASE `MySQL`;\<newline>''"

definition mysql_tables :: "string list" where
  "mysql_tables = [''CREATE TABLE `user` (\<newline>'', '') ENGINE=MyISAM;\<newline>'']"

text \<open>Lines ahead of every marker, some of them naming the engine.\<close>

definition preamble :: "string list" where
  "preamble = [''-- MySQL dump, MyISAM tables\<newline>'', '') ENGINE=MyISAM;\<newline>'']"

text \<open>A call whose output path is taken and which is not forced.\<close>

definition conflict_args :: args where
  "conflict_args =
     \<lparr>verbose = False, force = False, input_arg = ''dump.sql'', output_arg = ''out.sql''\<rparr>"

definition conflict_fs :: filesystem where
  "conflict_fs = [''dump.sql'' \<mapsto> '') ENGINE=MyISAM;\<newline>'', ''out.sql'' \<mapsto> ''kept'']"

section \<open>One line\<close>

lemma found_database_keeps [simp]:
  "preserved (found_database ex i l s) = preserved s"
  "changed (found_database ex i l s) = changed s"
  "outfile (found_database ex i l s) = outfile s"
  "table (found_database ex i l s) = table s"
  "loop_n (found_database ex i l s) = loop_n s"
  by (simp_all add: found_database_def split: option.splits)

lemma found_table_Inr:
  assumes "found_table ex i l s = Inr s'"
  shows "preserved s' = preserved s \<and> changed s' = changed s \<and> outfile s' = outfile s \<and>
         loop_n s' = loop_n s \<and> database s' = database s"
  using assms by (auto simp: found_table_def split: option.splits)

lemma found_table_Inl:
  assumes "found_table ex i l s = Inl (e, s')"
  shows "e = AttributeError \<and> database s = None \<and> table_re l \<noteq> None \<and>
         preserved s' = preserved s \<and> changed s' = changed s \<and> outfile s' = outfile s"
  using assms by (auto simp: found_table_def split: option.splits)

lemma write_line_Inr:
  assumes "write_line r i l s = Inr s'"
  shows "(outfile s' = outfile s @ [l] \<and> preserved s' = preserved s + 1 \<and> changed s' = changed s
          \<and> (isexcluded s \<or> \<not> myisam_re_search l)
          \<or> outfile s' = outfile s @ [myisam_re_sub r l] \<and> changed s' = changed s + 1 \<and>
            preserved s' = preserved s \<and> \<not> isexcluded s \<and> myisam_re_search l \<and> table s \<noteq> None)
         \<and> loop_n s' = loop_n s \<and> database s' = database s \<and> isexcluded s' = isexcluded s
         \<and> table s' = table s"
  using assms by (auto simp: write_line_def Let_def split: if_splits option.splits)

lemma write_line_Inl:
  assumes "write_line r i l s = Inl (e, s')"
  shows "e = UnboundLocalError ''table'' \<and> s' = s \<and> table s = None \<and> \<not> isexcluded s \<and>
         myisam_re_search l"
  using assms by (auto simp: write_line_def Let_def split: if_splits option.splits)

lemma body_Inr:
  assumes "body ex i l s = Inr s'"
  shows "changed s' + preserved s' = changed s + preserved s + 1 \<and>
         (outfile s' = outfile s @ [l] \<or> outfile s' = outfile s @ [myisam_re_sub ''InnoDB'' l]) \<and>
         loop_n s' = Some i"
proof -
  from assms obtain t where
    ft: "found_table ex i l (found_database ex i l (s\<lparr>loop_n := Some i\<rparr>)) = Inr t" and
    wl: "write_line ''InnoDB'' i l t = Inr s'"
    by (auto simp: body_def split: sum.splits)
  from found_table_Inr [OF ft] write_line_Inr [OF wl] show ?thesis by auto
qed

lemma body_Inl:
  assumes "body ex i l s = Inl (e, s')"
  shows "changed s' = changed s \<and> preserved s' = preserved s \<and> outfile s' = outfile s \<and>
         (e = AttributeError \<or> e = UnboundLocalError ''table'')"
proof (cases "found_table ex i l (found_database ex i l (s\<lparr>loop_n := Some i\<rparr>))")
  case (Inl a)
  with assms have "a = (e, s')" by (simp add: body_def)
  with Inl found_table_Inl [of ex i l _ e s'] show ?thesis by auto
next
  case (Inr t)
  with assms have "write_line ''InnoDB'' i l t = Inl (e, s')" by (simp add: body_def)
  from write_line_Inl [OF this] found_table_Inr [OF Inr] show ?thesis by auto
qed

lemma loop_append:
  "loop ex i (xs @ ys) s =
     (case loop ex i xs s of Inl e \<Rightarrow> Inl e | Inr s' \<Rightarrow> loop ex (i + length xs) ys s')"
  by (induction xs arbitrary: i s) (auto split: sum.splits)

lemma loop_counters:
  "changed (final (loop ex i ls s)) + preserved (final (loop ex i ls s)) + length (outfile s) =
   changed s + preserved s + length (outfile (final (loop ex i ls s)))"
proof (induction ls arbitrary: i s)
  case Nil
  show ?case by simp
next
  case (Cons l ls)
  show ?case
  proof (cases "body ex i l s")
    case (Inl a)
    obtain e s' where "a = (e, s')" by (cases a)
    with Inl body_Inl [of ex i l s e s'] show ?thesis by simp
  next
    case (Inr s')
    from body_Inr [OF Inr] Cons.IH [of "i + 1" s'] Inr show ?thesis by auto
  qed
qed

lemma loop_outfile:
  "\<exists>ws. outfile (final (loop ex i ls s)) = outfile s @ ws \<and> length ws \<le> length ls \<and>
        list_all2 same_or_converted ws (take (length ws) ls) \<and>
        (completed (loop ex i ls s) \<longrightarrow> length ws = length ls)"
proof (induction ls arbitrary: i s)
  case Nil
  show ?case by simp
next
  case (Cons l ls)
  show ?case
  proof (cases "body ex i l s")
    case (Inl a)
    obtain e s' where "a = (e, s')" by (cases a)
    with Inl body_Inl [of ex i l s e s'] show ?thesis by simp
  next
    case (Inr s')
    from Cons.IH [of "i + 1" s'] obtain ws where
      ws: "outfile (final (loop ex (i + 1) ls s')) = outfile s' @ ws" "length ws \<le> length ls"
        "list_all2 same_or_converted ws (take (length ws) ls)"
        "completed (loop ex (i + 1) ls s') \<longrightarrow> length ws = length ls"
      by blast
    from body_Inr [OF Inr] obtain w where
      w: "outfile s' = outfile s @ [w]" "same_or_converted w l"
      by (auto simp: same_or_converted_def)
    have "outfile (final (loop ex i (l # ls) s)) = outfile s @ (w # ws)"
      using Inr ws(1) w(1) by simp
    moreover have "list_all2 same_or_converted (w # ws) (take (length (w # ws)) (l # ls))"
      using ws(3) w(2) by simp
    ultimately show ?thesis using ws(2,4) Inr
      by (intro exI [of _ "w # ws"]) simp
  qed
qed

lemma loop_completed_n:
  "loop ex i ls s = Inr s' \<Longrightarrow> ls \<noteq> [] \<Longrightarrow> loop_n s' = Some (i + length ls - 1)"
proof (induction ls arbitrary: i s)
  case Nil
  then show ?case by simp
next
  case (Cons l ls)
  from Cons.prems(1) obtain t where b: "body ex i l s = Inr t" and r: "loop ex (i + 1) ls t = Inr s'"
    by (auto split: sum.splits)
  show ?case
  proof (cases ls)
    case Nil
    with r body_Inr [OF b] show ?thesis by simp
  next
    case (Cons a as)
    with Cons.IH [OF r] show ?thesis by simp
  qed
qed

section \<open>Case-insensitive matching and substitution\<close>

lemma of_char_tolower:
  "(of_char (tolower c) :: nat) =
     (if (65 \<le> (of_char c :: nat) \<and> (of_char c :: nat) \<le> 90) \<or>
         (192 \<le> (of_char c :: nat) \<and> (of_char c :: nat) \<le> 214) \<or>
         (216 \<le> (of_char c :: nat) \<and> (of_char c :: nat) \<le> 222)
      then of_char c + 32 else of_char c)"
  by (auto simp: tolower_def Let_def)

lemma ci_eq_nat: "ci_eq p c \<longleftrightarrow> (of_char (tolower c) :: nat) = of_char (tolower p)"
  by (simp add: ci_eq_def)

lemmas ci_simps = ci_eq_nat of_char_tolower

lemma no_In_MyISAM: "no_In ''MyISAM''"
  by (simp add: ci_simps)

lemma sub_match_back:
  "no_In p \<Longrightarrow> ci_prefix p (myisam_re_sub ''InnoDB'' s) \<Longrightarrow> ci_prefix p s"
proof (induction p arbitrary: s)
  case Nil
  show ?case by simp
next
  case (Cons a q)
  show ?case
  proof (cases s)
    case Nil
    with Cons.prems show ?thesis by simp
  next
    case (Cons c t)
    show ?thesis
    proof (cases "myisam_at (c # t)")
      case True
      with Cons.prems(2) Cons
      have "ci_eq a CHR ''I''" and q: "ci_prefix q (CHR ''n'' # ''noDB'' @ myisam_re_sub ''InnoDB'' (drop 5 t))"
        by simp_all
      with Cons.prems(1) obtain b q' where "q = b # q'" "\<not> ci_eq b CHR ''n''"
        by (cases q) auto
      with q show ?thesis by simp
    next
      case False
      with Cons.prems Cons.IH [of "myisam_re_sub ''InnoDB'' t" ] Cons.IH [of t] Cons
      show ?thesis by simp
    qed
  qed
qed

lemma not_myisam_at_sub: "\<not> myisam_at (myisam_re_sub ''InnoDB'' s)"
proof
  assume a: "myisam_at (myisam_re_sub ''InnoDB'' s)"
  then have "myisam_at s"
    unfolding myisam_at_def using sub_match_back [OF no_In_MyISAM] by blast
  then obtain c t where "s = c # t" "myisam_at (c # t)"
    by (cases s) (auto simp: myisam_at_def)
  with a show False
    by (simp add: myisam_at_def ci_simps)
qed

lemma search_InnoDB: "myisam_re_search (''InnoDB'' @ s) = myisam_re_search s"
  by (simp add: myisam_at_def ci_simps)

lemma sub_no_match: "\<not> myisam_re_search (myisam_re_sub ''InnoDB'' s)"
proof (induction "''InnoDB''" s rule: myisam_re_sub.induct)
  case 1
  show ?case by simp
next
  case (2 c s)
  show ?case
  proof (cases "myisam_at (c # s)")
    case True
    with 2 have "\<not> myisam_re_search (myisam_re_sub ''InnoDB'' (drop 5 s))" by simp
    with True search_InnoDB [of "myisam_re_sub ''InnoDB'' (drop 5 s)"] show ?thesis
      by simp
  next
    case False
    with 2 have "\<not> myisam_re_search (myisam_re_sub ''InnoDB'' s)" by simp
    moreover have "\<not> myisam_at (c # myisam_re_sub ''InnoDB'' s)"
      using not_myisam_at_sub [of "c # s"] False by simp
    ultimately show ?thesis using False by simp
  qed
qed

section \<open>A marker line stays a marker line when converted\<close>

lemma same_class_dropWhile_newline:
  "list_all2 same_class s t \<Longrightarrow>
   list_all2 same_class (dropWhile (\<lambda>c. c \<noteq> newline) s) (dropWhile (\<lambda>c. c \<noteq> newline) t)"
  by (induction rule: list_all2_induct) (auto simp: same_class_def)

lemma same_class_nil: "list_all2 same_class r r' \<Longrightarrow> (r = []) = (r' = [])"
  by (cases r; cases r') simp_all

lemma same_class_newline:
  "list_all2 same_class r r' \<Longrightarrow> (r = [newline]) = (r' = [newline])"
  by (cases r; cases r') (auto simp: same_class_def)

lemma same_class_dot_star_eol:
  assumes "list_all2 same_class s t"
  shows "dot_star_eol s = dot_star_eol t"
  using same_class_nil [OF same_class_dropWhile_newline [OF assms]]
    same_class_newline [OF same_class_dropWhile_newline [OF assms]]
  by (simp only: dot_star_eol_def Let_def)

lemma same_class_tail:
  assumes "list_all2 same_class r r'"
  shows "(case r of [] \<Rightarrow> True | x # u \<Rightarrow> \<not> (x = backtick \<and> dot_star_eol u)) =
         (case r' of [] \<Rightarrow> True | x # u \<Rightarrow> \<not> (x = backtick \<and> dot_star_eol u))"
proof (cases r)
  case Nil
  with assms show ?thesis by simp
next
  case (Cons x u)
  with assms obtain y v where r': "r' = y # v" and xy: "same_class x y"
    and uv: "list_all2 same_class u v"
    by (cases r') auto
  from same_class_dot_star_eol [OF uv] xy Cons r' show ?thesis
    by (simp add: same_class_def)
qed

lemma same_class_words:
  "list_all2 same_class s t \<Longrightarrow>
   (takeWhile is_word s = [] \<longleftrightarrow> takeWhile is_word t = []) \<and>
   list_all2 same_class (dropWhile is_word s) (dropWhile is_word t)"
  by (induction rule: list_all2_induct) (auto simp: same_class_def)

lemma quoted_name_None_iff:
  assumes "w = takeWhile is_word s'" and "r = dropWhile is_word s'"
  shows "quoted_name (c # s') = None \<longleftrightarrow>
         (c \<noteq> backtick \<or> w = [] \<or>
          (case r of [] \<Rightarrow> True | x # u \<Rightarrow> \<not> (x = backtick \<and> dot_star_eol u)))"
proof -
  have "quoted_name (c # s') =
          (if c \<noteq> backtick then None
           else if w = [] then None
           else (case r of
                   [] \<Rightarrow> None
                 | d # u \<Rightarrow> if d = backtick \<and> dot_star_eol u then Some w else None))"
    unfolding assms quoted_name_def Let_def by (simp only: list.case)
  then show ?thesis by (cases r) auto
qed

lemma same_class_quoted_name:
  assumes "list_all2 same_class s t"
  shows "quoted_name s = None \<longleftrightarrow> quoted_name t = None"
proof (cases s)
  case Nil
  with assms show ?thesis by (simp add: quoted_name_def)
next
  case (Cons c s')
  with assms obtain d t' where t: "t = d # t'" and cd: "same_class c d"
    and st: "list_all2 same_class s' t'"
    by (cases t) auto
  from same_class_words [OF st]
  have w: "takeWhile is_word s' = [] \<longleftrightarrow> takeWhile is_word t' = []"
    and r: "list_all2 same_class (dropWhile is_word s') (dropWhile is_word t')"
    by simp_all
  from cd have "c \<noteq> backtick \<longleftrightarrow> d \<noteq> backtick" by (simp add: same_class_def)
  with w same_class_tail [OF r] show ?thesis
    unfolding Cons t quoted_name_None_iff [OF refl refl] by (simp only:)
qed

lemma same_class_dot_star:
  "list_all2 same_class s t \<Longrightarrow>
   (dot_star quoted_name s = None \<longleftrightarrow> dot_star quoted_name t = None)"
proof (induction rule: list_all2_induct)
  case Nil
  show ?case by simp
next
  case (Cons c s d t)
  from Cons.hyps have "list_all2 same_class (c # s) (d # t)" by simp
  from same_class_quoted_name [OF this] Cons.IH Cons.hyps(1) show ?case
    by (auto simp: same_class_def split: option.splits)
qed

lemma ci_prefix_Cons:
  "ci_prefix (p # ps) s \<longleftrightarrow> (\<exists>c cs. s = c # cs \<and> ci_eq p c \<and> ci_prefix ps cs)"
  by (cases s) auto

lemma is_word_tolower: "is_word (tolower c) = is_word c"
  by (auto simp: is_word_def Let_def of_char_tolower)

lemma ci_eq_word: "is_word p \<Longrightarrow> ci_eq p c \<Longrightarrow> is_word c"
  using is_word_tolower [of c] is_word_tolower [of p] by (simp add: ci_eq_def)

lemma words_same_class: "is_word a \<Longrightarrow> is_word b \<Longrightarrow> same_class a b"
  by (auto simp: same_class_def is_word_def newline_def backtick_def)

lemma myisam_at_split:
  assumes "myisam_at s"
  shows "\<exists>w. length w = 6 \<and> s = w @ drop 6 s \<and> list_all2 same_class w ''InnoDB''"
proof -
  from assms obtain a b c d e f r where s: "s = a # b # c # d # e # f # r"
    and m: "ci_eq CHR ''M'' a" "ci_eq CHR ''y'' b" "ci_eq CHR ''I'' c" "ci_eq CHR ''S'' d"
      "ci_eq CHR ''A'' e" "ci_eq CHR ''M'' f"
    unfolding myisam_at_def by (auto simp: ci_prefix_Cons)
  have "is_word a" "is_word b" "is_word c" "is_word d" "is_word e" "is_word f"
    using m [THEN ci_eq_word [rotated]] by (simp_all add: is_word_def)
  then have "list_all2 same_class [a, b, c, d, e, f] ''InnoDB''"
    by (simp add: words_same_class is_word_def)
  with s show ?thesis by (intro exI [of _ "[a, b, c, d, e, f]"]) simp
qed

lemma sub_same_class: "list_all2 same_class s (myisam_re_sub ''InnoDB'' s)"
proof (induction "''InnoDB''" s rule: myisam_re_sub.induct)
  case 1
  show ?case by simp
next
  case (2 c s)
  show ?case
  proof (cases "myisam_at (c # s)")
    case True
    from myisam_at_split [OF True] obtain w where
      w: "length w = 6" "c # s = w @ drop 5 s" "list_all2 same_class w ''InnoDB''"
      by auto
    from 2(1) [OF True] have "list_all2 same_class (drop 5 s) (myisam_re_sub ''InnoDB'' (drop 5 s))" .
    with w(3) have "list_all2 same_class (w @ drop 5 s) (''InnoDB'' @ myisam_re_sub ''InnoDB'' (drop 5 s))"
      by (rule list_all2_appendI)
    with w(2) have "list_all2 same_class (c # s) (''InnoDB'' @ myisam_re_sub ''InnoDB'' (drop 5 s))"
      by (simp only:)
    with True show ?thesis by simp
  next
    case False
    with 2(2) show ?thesis by (simp add: same_class_def)
  qed
qed

lemma ci_eq_trans: "ci_eq a c \<Longrightarrow> ci_eq b c \<Longrightarrow> ci_eq a b"
  by (simp add: ci_eq_def)

lemma sub_keyword:
  "no_M p \<Longrightarrow> ci_prefix p s \<Longrightarrow>
   myisam_re_sub ''InnoDB'' s = take (length p) s @ myisam_re_sub ''InnoDB'' (drop (length p) s)"
proof (induction p s rule: ci_prefix.induct)
  case (1 s)
  show ?case by simp
next
  case (2 p ps)
  then show ?case by simp
next
  case (3 p ps c cs)
  from 3(2,3) have "\<not> myisam_at (c # cs)"
    by (auto simp: myisam_at_def ci_eq_def)
  with 3 show ?case by simp
qed

lemma ci_prefix_take: "ci_prefix p s \<Longrightarrow> ci_prefix p (take (length p) s @ r) \<and> length p \<le> length s"
  by (induction p s rule: ci_prefix.induct) auto

lemma marker_re_sub:
  assumes "no_M keyword" and "marker_re keyword l \<noteq> None"
  shows "marker_re keyword (myisam_re_sub ''InnoDB'' l) \<noteq> None"
proof -
  let ?n = "length keyword"
  from assms(2) have p: "ci_prefix keyword l" and d: "dot_star quoted_name (drop ?n l) \<noteq> None"
    by (auto simp: marker_re_def split: if_splits)
  from sub_keyword [OF assms(1) p]
  have eq: "myisam_re_sub ''InnoDB'' l = take ?n l @ myisam_re_sub ''InnoDB'' (drop ?n l)" .
  from ci_prefix_take [OF p] have p': "ci_prefix keyword (myisam_re_sub ''InnoDB'' l)"
    and len: "?n \<le> length l"
    unfolding eq by simp_all
  from len have "drop ?n (myisam_re_sub ''InnoDB'' l) = myisam_re_sub ''InnoDB'' (drop ?n l)"
    unfolding eq by simp
  with same_class_dot_star [OF sub_same_class [of "drop ?n l"]] d p' show ?thesis
    by (simp add: marker_re_def)
qed

lemma database_re_sub:
  "database_re l \<noteq> None \<Longrightarrow> database_re (myisam_re_sub ''InnoDB'' l) \<noteq> None"
  unfolding database_re_def by (rule marker_re_sub) (simp_all add: ci_simps)

section \<open>A second run over the output of a first\<close>

lemma markers_Inr:
  assumes "found_table ex i l (found_database ex i l s) = Inr b"
  shows "outfile b = outfile s \<and> changed b = changed s \<and> preserved b = preserved s \<and>
         (case database_re l of
            Some d \<Rightarrow> database b = Some d \<and> isexcluded b = upper_in d ex
          | None \<Rightarrow>
              database b = database s \<and>
              (case table_re l of
                 None \<Rightarrow> isexcluded b = isexcluded s
               | Some t \<Rightarrow> (\<exists>d. database s = Some d \<and> isexcluded b = upper_in d ex)))"
  using assms by (auto simp: found_table_def found_database_def split: option.splits)

lemma markers_exist:
  assumes "database_re l \<noteq> None \<or> table_re l = None \<or> database s \<noteq> None"
  shows "\<exists>b. found_table ex i l (found_database ex i l s) = Inr b"
  using assms by (auto simp: found_table_def found_database_def split: option.splits)

lemma write_line_preserves:
  assumes "isexcluded b \<or> \<not> myisam_re_search w"
  shows "write_line r i w b = Inr (b\<lparr>outfile := outfile b @ [w], preserved := preserved b + 1\<rparr>)"
  using assms by (auto simp: write_line_def)

lemma body_rerun:
  assumes inv: "rerun_inv ex s1 s2" and b: "body ex i l s1 = Inr s1'"
  shows "\<exists>w s2'. outfile s1' = outfile s1 @ [w] \<and> body ex j w s2 = Inr s2' \<and>
           outfile s2' = outfile s2 @ [w] \<and> changed s2' = changed s2 \<and> rerun_inv ex s1' s2'"
proof -
  let ?m = "\<lambda>i l s. found_table ex i l (found_database ex i l (s\<lparr>loop_n := Some i\<rparr>))"
  from b obtain b1 where m1: "?m i l s1 = Inr b1" and w1: "write_line ''InnoDB'' i l b1 = Inr s1'"
    by (auto simp: body_def split: sum.splits)
  note f1 = markers_Inr [OF m1]
  note g1 = write_line_Inr [OF w1]
  have inv1: "case database b1 of None \<Rightarrow> True | Some d \<Rightarrow> isexcluded b1 = upper_in d ex"
    using f1 inv by (auto simp: rerun_inv_def split: option.splits)
  show ?thesis
  proof (cases "isexcluded b1")
    case True
    with g1 have o1: "outfile s1' = outfile s1 @ [l]" and s1': "database s1' = database b1"
      "isexcluded s1' = isexcluded b1"
      using f1 by auto
    have "database_re l \<noteq> None \<or> table_re l = None \<or> database (s2\<lparr>loop_n := Some j\<rparr>) \<noteq> None"
      using f1 inv True by (auto simp: rerun_inv_def split: option.splits if_splits)
    from markers_exist [OF this] obtain b2 where m2: "?m j l s2 = Inr b2" by blast
    note f2 = markers_Inr [OF m2]
    have e2: "isexcluded b2 \<and> database b2 = database b1"
      using f1 f2 inv True by (auto simp: rerun_inv_def split: option.splits if_splits)
    let ?s2' = "b2\<lparr>outfile := outfile b2 @ [l], preserved := preserved b2 + 1\<rparr>"
    have "body ex j l s2 = Inr ?s2'"
      using m2 write_line_preserves [of b2 l "''InnoDB''" j] e2 by (simp add: body_def)
    moreover have "rerun_inv ex s1' ?s2'"
      using inv1 e2 s1' True by (auto simp: rerun_inv_def split: option.splits)
    ultimately show ?thesis using o1 f2 by (intro exI [of _ l] exI [of _ ?s2']) simp
  next
    case False
    from g1 have s1': "database s1' = database b1" "isexcluded s1' = isexcluded b1"
      by simp_all
    have "\<exists>w. outfile s1' = outfile s1 @ [w] \<and>
            (w = l \<and> \<not> myisam_re_search l \<or> w = myisam_re_sub ''InnoDB'' l)"
      using g1 f1 False by auto
    then obtain w where o1: "outfile s1' = outfile s1 @ [w]"
      and w: "w = l \<and> \<not> myisam_re_search l \<or> w = myisam_re_sub ''InnoDB'' l"
      by blast
    from w have nomatch: "\<not> myisam_re_search w" using sub_no_match by auto
    have db1: "database b1 \<noteq> None"
      using f1 inv False by (auto simp: rerun_inv_def split: option.splits if_splits)
    have keep: "database_re l \<noteq> None \<Longrightarrow> database_re w \<noteq> None"
      using w database_re_sub by auto
    have d2: "database_re l = None \<Longrightarrow> database s2 \<noteq> None"
      using f1 inv False by (auto simp: rerun_inv_def split: option.splits if_splits)
    have "database_re w \<noteq> None \<or> table_re w = None \<or> database (s2\<lparr>loop_n := Some j\<rparr>) \<noteq> None"
      using keep d2 by auto
    from markers_exist [OF this] obtain b2 where m2: "?m j w s2 = Inr b2" by blast
    note f2 = markers_Inr [OF m2]
    have db2: "database b2 \<noteq> None"
      using f2 keep d2 by (auto split: option.splits)
    let ?s2' = "b2\<lparr>outfile := outfile b2 @ [w], preserved := preserved b2 + 1\<rparr>"
    have "body ex j w s2 = Inr ?s2'"
      using m2 write_line_preserves [of b2 w "''InnoDB''" j] nomatch by (simp add: body_def)
    moreover have "rerun_inv ex s1' ?s2'"
      using inv1 db1 db2 s1' False by (auto simp: rerun_inv_def split: option.splits)
    ultimately show ?thesis using o1 f2 by (intro exI [of _ w] exI [of _ ?s2']) simp
  qed
qed

lemma loop_rerun:
  assumes "rerun_inv ex s1 s2" and "outfile (final (loop ex i ls s1)) = outfile s1 @ ws"
  shows "\<exists>s2'. loop ex j ws s2 = Inr s2' \<and> outfile s2' = outfile s2 @ ws \<and>
           changed s2' = changed s2"
  using assms
proof (induction ls arbitrary: i j s1 s2 ws)
  case Nil
  then show ?case by simp
next
  case (Cons l ls)
  show ?case
  proof (cases "body ex i l s1")
    case (Inl a)
    obtain e s' where "a = (e, s')" by (cases a)
    with Inl body_Inl [of ex i l s1 e s'] Cons.prems(2) show ?thesis by simp
  next
    case (Inr s1')
    from body_rerun [OF Cons.prems(1) Inr, of j] obtain w s2' where
      w: "outfile s1' = outfile s1 @ [w]" "body ex j w s2 = Inr s2'"
        "outfile s2' = outfile s2 @ [w]" "changed s2' = changed s2" "rerun_inv ex s1' s2'"
      by blast
    from loop_outfile [of ex "i + 1" ls s1'] obtain ws' where
      ws': "outfile (final (loop ex (i + 1) ls s1')) = outfile s1' @ ws'" by blast
    with Cons.prems(2) Inr w(1) have ws: "ws = w # ws'" by simp
    from Cons.IH [OF w(5) ws'(1), of "j + 1"] obtain t where
      "loop ex (j + 1) ws' s2' = Inr t" "outfile t = outfile s2' @ ws'" "changed t = changed s2'"
      by blast
    with w ws show ?thesis by simp
  qed
qed

lemma rerun_inv_init: "rerun_inv ex init init"
  by (simp add: rerun_inv_def init_def)

lemma ProcessFiles_final:
  "outfile (final (ProcessFiles infile ex)) = outfile (final (loop ex 0 infile init)) \<and>
   changed (final (ProcessFiles infile ex)) = changed (final (loop ex 0 infile init))"
  by (auto simp: ProcessFiles_def summary_def split: sum.splits option.splits)

section \<open>Counters, preamble, excluded schemas\<close>

lemma body_kinds:
  assumes "body ex i l s = Inr s'"
  shows "changed s' = changed s + 1 \<and> preserved s' = preserved s \<or>
         changed s' = changed s \<and> preserved s' = preserved s + 1"
proof -
  from assms obtain t where
    ft: "found_table ex i l (found_database ex i l (s\<lparr>loop_n := Some i\<rparr>)) = Inr t" and
    wl: "write_line ''InnoDB'' i l t = Inr s'"
    by (auto simp: body_def split: sum.splits)
  from found_table_Inr [OF ft] write_line_Inr [OF wl] show ?thesis by auto
qed

lemma loop_init_written:
  "changed (final (loop ex 0 ls init)) + preserved (final (loop ex 0 ls init)) =
     length (outfile (final (loop ex 0 ls init)))"
  using loop_counters [of ex 0 ls init] by (simp add: init_def)

lemma loop_completed_length:
  assumes "completed (loop ex 0 ls init)"
  shows "length (outfile (final (loop ex 0 ls init))) = length ls"
  using loop_outfile [of ex 0 ls init] assms by (auto simp: init_def)

lemma ProcessFiles_Inr:
  "ProcessFiles infile ex = Inr s \<longleftrightarrow>
     (\<exists>t. loop ex 0 infile init = Inr t \<and> infile \<noteq> [] \<and>
          s = t\<lparr>logged := logged t @ [Summary (length infile) (changed t) (preserved t)]\<rparr>)"
proof (cases "loop ex 0 infile init")
  case (Inl a)
  then show ?thesis by (simp add: ProcessFiles_def)
next
  case (Inr t)
  show ?thesis
  proof (cases infile)
    case Nil
    with Inr show ?thesis by (auto simp: ProcessFiles_def summary_def init_def)
  next
    case (Cons l ls)
    with loop_completed_n [OF Inr] have "loop_n t = Some (length ls)" by simp
    with Inr Cons show ?thesis by (auto simp: ProcessFiles_def summary_def)
  qed
qed

lemma body_plain:
  assumes "database_re l = None" and "table_re l = None" and "isexcluded s"
  shows "body ex i l s = Inr (s\<lparr>loop_n := Some i, outfile := outfile s @ [l],
                                 preserved := preserved s + 1\<rparr>)"
  using assms by (simp add: body_def found_database_def found_table_def write_line_def)

lemma loop_preamble:
  assumes "\<forall>l\<in>set pre. database_re l = None \<and> table_re l = None"
    and "isexcluded s" and "database s = None"
  shows "\<exists>s'. loop ex i pre s = Inr s' \<and> outfile s' = outfile s @ pre \<and>
           preserved s' = preserved s + length pre \<and> changed s' = changed s \<and>
           isexcluded s' \<and> database s' = None"
  using assms
proof (induction pre arbitrary: i s)
  case Nil
  then show ?case by simp
next
  case (Cons l pre)
  let ?s = "s\<lparr>loop_n := Some i, outfile := outfile s @ [l], preserved := preserved s + 1\<rparr>"
  from Cons.prems have b: "body ex i l s = Inr ?s" by (simp add: body_plain)
  from Cons.prems have "\<forall>l\<in>set pre. database_re l = None \<and> table_re l = None"
    "isexcluded ?s" "database ?s = None" by simp_all
  from Cons.IH [OF this, of "i + 1"] b show ?case by auto
qed

lemma body_excluded:
  assumes "database_re l = Some d \<or> database_re l = None \<and> database s = Some d \<and> isexcluded s"
    and "upper_in d ex"
  shows "\<exists>s'. body ex i l s = Inr s' \<and> outfile s' = outfile s @ [l] \<and>
           preserved s' = preserved s + 1 \<and> changed s' = changed s \<and>
           database s' = Some d \<and> isexcluded s'"
proof -
  let ?s = "s\<lparr>loop_n := Some i\<rparr>"
  from assms(1) have "database_re l \<noteq> None \<or> table_re l = None \<or> database ?s \<noteq> None"
    by auto
  from markers_exist [OF this] obtain b where
    m: "found_table ex i l (found_database ex i l ?s) = Inr b" by blast
  from markers_Inr [OF m] assms have b: "database b = Some d" "isexcluded b"
    "outfile b = outfile s" "changed b = changed s" "preserved b = preserved s"
    by (auto split: option.splits)
  from m write_line_preserves [of b l "''InnoDB''" i] b show ?thesis
    by (simp add: body_def)
qed

lemma loop_excluded:
  assumes "\<forall>l\<in>set seg. database_re l = None" and "database s = Some d" and "isexcluded s"
    and "upper_in d ex"
  shows "\<exists>s'. loop ex i seg s = Inr s' \<and> outfile s' = outfile s @ seg \<and>
           preserved s' = preserved s + length seg \<and> changed s' = changed s"
  using assms
proof (induction seg arbitrary: i s)
  case Nil
  then show ?case by simp
next
  case (Cons l seg)
  from Cons.prems have "database_re l = Some d \<or>
      database_re l = None \<and> database s = Some d \<and> isexcluded s" by simp
  from body_excluded [OF this Cons.prems(4), of i] obtain t where
    t: "body ex i l s = Inr t" "outfile t = outfile s @ [l]" "preserved t = preserved s + 1"
      "changed t = changed s" "database t = Some d" "isexcluded t"
    by blast
  from Cons.prems(1) have "\<forall>l\<in>set seg. database_re l = None" by simp
  from Cons.IH [OF this t(5,6) Cons.prems(4), of "i + 1"] t show ?case by auto
qed

section \<open>Errors and the summary\<close>

lemma ci_prefix_nth:
  "ci_prefix p s \<Longrightarrow> k < length p \<Longrightarrow> k < length s \<and> ci_eq (p ! k) (s ! k)"
proof (induction p s arbitrary: k rule: ci_prefix.induct)
  case (3 p ps c cs)
  then show ?case by (cases k) auto
qed simp_all

lemma table_not_database:
  assumes "table_re l \<noteq> None"
  shows "database_re l = None"
proof (rule ccontr)
  assume "database_re l \<noteq> None"
  with assms have "ci_prefix ''CREATE TABLE'' l" and "ci_prefix ''CREATE DATABASE'' l"
    by (auto simp: table_re_def database_re_def marker_re_def split: if_splits)
  from ci_prefix_nth [OF this(1), of 7] ci_prefix_nth [OF this(2), of 7]
  show False by (simp add: ci_simps)
qed

lemma body_table_first:
  assumes "table_re l = Some t" and "database s = None"
  shows "body ex i l s = Inl (AttributeError, s\<lparr>loop_n := Some i, table := Some t\<rparr>)"
  using assms table_not_database [of l]
  by (simp add: body_def found_database_def found_table_def)

lemma body_AttributeError:
  assumes "body ex i l s = Inl (AttributeError, s')"
  shows "table_re l \<noteq> None \<and> database_re l = None \<and> database s = None"
proof (cases "found_table ex i l (found_database ex i l (s\<lparr>loop_n := Some i\<rparr>))")
  case (Inl a)
  with assms have a: "a = (AttributeError, s')" by (simp add: body_def)
  from found_table_Inl [OF Inl [unfolded a]] show ?thesis
    by (auto simp: found_database_def split: option.splits)
next
  case (Inr t)
  with assms have "write_line ''InnoDB'' i l t = Inl (AttributeError, s')"
    by (simp add: body_def)
  from write_line_Inl [OF this] show ?thesis by simp
qed

lemma body_database_kept:
  assumes "body ex i l s = Inr s'" and "database s \<noteq> None \<or> database_re l \<noteq> None"
  shows "database s' \<noteq> None"
proof -
  from assms(1) obtain t where
    ft: "found_table ex i l (found_database ex i l (s\<lparr>loop_n := Some i\<rparr>)) = Inr t" and
    wl: "write_line ''InnoDB'' i l t = Inr s'"
    by (auto simp: body_def split: sum.splits)
  from markers_Inr [OF ft] write_line_Inr [OF wl] assms(2) show ?thesis
    by (auto split: option.splits)
qed

lemma schema_first_Cons:
  assumes "schema_first (l # ls)"
  shows "table_re l = None" and "database_re l \<noteq> None \<or> schema_first ls"
proof -
  from assms show "table_re l = None" by (force simp: schema_first_def)
  show "database_re l \<noteq> None \<or> schema_first ls"
  proof (cases "database_re l")
    case None
    have "schema_first ls"
      unfolding schema_first_def
    proof (intro allI impI)
      fix k assume k: "k < length ls" "table_re (ls ! k) \<noteq> None"
      with assms obtain j where j: "j < Suc k" "database_re ((l # ls) ! j) \<noteq> None"
        unfolding schema_first_def by (metis Suc_less_eq length_Cons nth_Cons_Suc)
      with None obtain j' where "j = Suc j'" by (cases j) auto
      with j show "\<exists>j<k. database_re (ls ! j) \<noteq> None" by auto
    qed
    then show ?thesis ..
  next
    case (Some d)
    then show ?thesis by simp
  qed
qed

lemma loop_no_AttributeError:
  assumes "database s \<noteq> None \<or> schema_first ls"
  shows "loop ex i ls s \<noteq> Inl (AttributeError, s')"
  using assms
proof (induction ls arbitrary: i s)
  case Nil
  show ?case by simp
next
  case (Cons l ls)
  show ?case
  proof (cases "body ex i l s")
    case (Inl a)
    obtain e t where a: "a = (e, t)" by (cases a)
    have "e \<noteq> AttributeError"
    proof
      assume "e = AttributeError"
      with Inl a body_AttributeError [of ex i l s t]
      have "table_re l \<noteq> None" "database s = None" by simp_all
      with Cons.prems schema_first_Cons(1) [of l ls] show False by auto
    qed
    with Inl a show ?thesis by simp
  next
    case (Inr t)
    have "database t \<noteq> None \<or> schema_first ls"
      using Cons.prems body_database_kept [OF Inr] schema_first_Cons(2) [of l ls] by auto
    from Cons.IH [OF this] Inr show ?thesis by simp
  qed
qed

section \<open>What a converted line is\<close>

lemma write_line_converts:
  assumes "\<not> isexcluded s" and "myisam_re_search l" and "table s = Some t"
  shows "write_line r i l s =
           Inr (s\<lparr>logged := logged s @ [Changing (i + 1) (database s) t l (myisam_re_sub r l)],
                  outfile := outfile s @ [myisam_re_sub r l], changed := changed s + 1\<rparr>)"
  using assms by (simp add: write_line_def Let_def)

lemma sub_length: "length (myisam_re_sub ''InnoDB'' l) = length l"
  using sub_same_class [of l] by (simp add: list_all2_lengthD)

lemma myisam_at_length: "myisam_at s \<Longrightarrow> 6 \<le> length s"
  using myisam_at_split [of s] by (metis le_add1 length_append)

lemma drop_behind: "length p = n \<Longrightarrow> drop (j + n) (p @ r) = drop j r"
  by simp

lemma sub_positions:
  "i < length l \<Longrightarrow>
   myisam_re_sub ''InnoDB'' l ! i = l ! i \<or>
   (\<exists>j\<le>i. i < j + 6 \<and> myisam_at (drop j l) \<and>
      take 6 (drop j (myisam_re_sub ''InnoDB'' l)) = ''InnoDB'')"
proof (induction "''InnoDB''" l arbitrary: i rule: myisam_re_sub.induct)
  case 1
  then show ?case by simp
next
  case (2 c s)
  show ?case
  proof (cases "myisam_at (c # s)")
    case True
    let ?r = "myisam_re_sub ''InnoDB'' (drop 5 s)"
    have sub: "myisam_re_sub ''InnoDB'' (c # s) = ''InnoDB'' @ ?r" using True by simp
    show ?thesis
    proof (cases "i < 6")
      case True
      with \<open>myisam_at (c # s)\<close> sub show ?thesis by (intro disjI2 exI [of _ 0]) simp
    next
      case False
      then obtain i' where i': "i = i' + 6" by (metis add.commute le_Suc_ex not_less)
      from myisam_at_length [OF True] have len: "5 \<le> length s" by simp
      from 2(3) i' len have b: "i' < length (drop 5 s)" by simp
      have l: "(c # s) ! i = drop 5 s ! i'" using i' len by simp
      have r: "myisam_re_sub ''InnoDB'' (c # s) ! i = ?r ! i'"
        unfolding sub i' by (simp add: nth_append)
      from 2(1) [OF True b] show ?thesis
      proof
        assume "?r ! i' = drop 5 s ! i'"
        with l r show ?thesis by simp
      next
        assume "\<exists>j\<le>i'. i' < j + 6 \<and> myisam_at (drop j (drop 5 s)) \<and> take 6 (drop j ?r) = ''InnoDB''"
        then obtain j where j: "j \<le> i'" "i' < j + 6" "myisam_at (drop j (drop 5 s))"
          "take 6 (drop j ?r) = ''InnoDB''" by blast
        have "j + 6 = Suc (j + 5)" by simp
        then have "drop (j + 6) (c # s) = drop j (drop 5 s)"
          by (simp only: drop_Suc_Cons drop_drop)
        moreover have "drop (j + 6) (myisam_re_sub ''InnoDB'' (c # s)) = drop j ?r"
          unfolding sub by (rule drop_behind) simp
        ultimately show ?thesis using j i'
          by (intro disjI2 exI [of _ "j + 6"]) simp
      qed
    qed
  next
    case False
    then have sub: "myisam_re_sub ''InnoDB'' (c # s) = c # myisam_re_sub ''InnoDB'' s" by simp
    show ?thesis
    proof (cases i)
      case 0
      with sub show ?thesis by simp
    next
      case (Suc i')
      with 2(3) have "i' < length s" by simp
      from 2(2) [OF False this] show ?thesis
      proof
        assume "myisam_re_sub ''InnoDB'' s ! i' = s ! i'"
        with sub Suc show ?thesis by simp
      next
        assume "\<exists>j\<le>i'. i' < j + 6 \<and> myisam_at (drop j s) \<and>
                  take 6 (drop j (myisam_re_sub ''InnoDB'' s)) = ''InnoDB''"
        then obtain j where "j \<le> i'" "i' < j + 6" "myisam_at (drop j s)"
          "take 6 (drop j (myisam_re_sub ''InnoDB'' s)) = ''InnoDB''" by blast
        with sub Suc show ?thesis by (intro disjI2 exI [of _ "Suc j"]) simp
      qed
    qed
  qed
qed

section \<open>Reading back what was written\<close>

lemma universal_newlines_no_cr: "carriage_return \<notin> set (universal_newlines s)"
  by (induction s rule: universal_newlines.induct)
    (auto simp: carriage_return_def newline_def)

lemma split_lines_line:
  "newline \<notin> set b \<Longrightarrow>
   split_lines acc (b @ newline # s) = (acc @ b @ [newline]) # split_lines [] s"
  by (induction b arbitrary: acc) auto

lemma split_lines_rest:
  "newline \<notin> set b \<Longrightarrow> split_lines acc b = (if acc @ b = [] then [] else [acc @ b])"
  by (induction b arbitrary: acc) auto

lemma split_lines_concat: "proper ls \<Longrightarrow> split_lines [] (concat ls) = ls"
proof (induction ls rule: proper.induct)
  case 1
  show ?case by simp
next
  case (2 l)
  then have l: "l \<noteq> []" "newline \<notin> set (butlast l)" by simp_all
  show ?case
  proof (cases "last l = newline")
    case True
    with l have "l = butlast l @ newline # []" by (metis append_butlast_last_id)
    with split_lines_line [OF l(2), of "[]" "[]"] show ?thesis by simp
  next
    case False
    with l have "newline \<notin> set l"
      by (metis append_butlast_last_id rotate1.simps(2) set_ConsD set_rotate1)
    with split_lines_rest [of l "[]"] l(1) show ?thesis by simp
  qed
next
  case (3 l m ls)
  then have l: "l \<noteq> []" "newline \<notin> set (butlast l)" "last l = newline"
    and p: "proper (m # ls)" by simp_all
  define b where "b = butlast l"
  from l have lb: "l = b @ [newline]" unfolding b_def by (metis append_butlast_last_id)
  from l(2) have nb: "newline \<notin> set b" by (simp add: b_def)
  have "concat (l # m # ls) = b @ newline # concat (m # ls)"
    unfolding lb by simp
  then have "split_lines [] (concat (l # m # ls)) = (b @ [newline]) # split_lines [] (concat (m # ls))"
    using split_lines_line [OF nb, of "[]" "concat (m # ls)"] by simp
  with 3(1) [OF p] show ?case unfolding lb by simp
qed

lemma split_lines_proper:
  "newline \<notin> set acc \<Longrightarrow> proper (split_lines acc s)"
proof (induction acc s rule: split_lines.induct)
  case (1 acc)
  then show ?case by (auto dest: in_set_butlastD)
next
  case (2 acc c s)
  show ?case
  proof (cases "c = newline")
    case True
    with 2 have "proper (split_lines [] s)" by simp
    with True 2(3) show ?thesis by (cases "split_lines [] s") simp_all
  next
    case False
    with 2 show ?thesis by simp
  qed
qed

lemma split_lines_set: "set (concat (split_lines acc s)) = set acc \<union> set s"
  by (induction acc s rule: split_lines.induct) auto

lemma readlines_proper:
  "proper (readlines c) \<and> (\<forall>l\<in>set (readlines c). carriage_return \<notin> set l)"
  using split_lines_proper [of "[]" "universal_newlines c"]
    split_lines_set [of "[]" "universal_newlines c"] universal_newlines_no_cr [of c]
  by (auto simp: readlines_def)

lemma no_cr_universal: "carriage_return \<notin> set s \<Longrightarrow> universal_newlines s = s"
  by (induction s rule: universal_newlines.induct) auto

lemma readlines_concat:
  assumes "proper ls" and "\<forall>l\<in>set ls. carriage_return \<notin> set l"
  shows "readlines (concat ls) = ls"
  using assms by (simp add: readlines_def no_cr_universal split_lines_concat)

lemma same_class_breaks: "list_all2 same_class l w \<Longrightarrow> same_breaks w l"
  unfolding same_breaks_def
  by (induction rule: list_all2_induct) (auto simp: same_class_def)

lemma same_or_converted_breaks: "same_or_converted w l \<Longrightarrow> same_breaks w l"
  using same_class_breaks [OF sub_same_class [of l]]
  by (auto simp: same_or_converted_def same_breaks_def)

lemma same_breaks_line:
  assumes "same_breaks w l"
  shows "(w = []) = (l = [])"
    and "(newline \<in> set (butlast w)) = (newline \<in> set (butlast l))"
    and "l \<noteq> [] \<Longrightarrow> (last w = newline) = (last l = newline)"
proof -
  let ?f = "\<lambda>c. c = newline"
  from assms have m: "map ?f w = map ?f l" by (simp add: same_breaks_def)
  from m show e: "(w = []) = (l = [])" by (metis map_is_Nil_conv)
  from m have "map ?f (butlast w) = map ?f (butlast l)" by (simp add: map_butlast)
  then have "set (map ?f (butlast w)) = set (map ?f (butlast l))" by simp
  then have "(True \<in> ?f ` set (butlast w)) = (True \<in> ?f ` set (butlast l))" by simp
  then show "(newline \<in> set (butlast w)) = (newline \<in> set (butlast l))" by auto
  assume l: "l \<noteq> []"
  with e have w: "w \<noteq> []" by simp
  from m have "last (map ?f w) = last (map ?f l)" by simp
  with l w show "(last w = newline) = (last l = newline)" by (simp add: last_map)
qed

lemma proper_same_breaks:
  "list_all2 same_breaks ws ls \<Longrightarrow> proper ls \<Longrightarrow> proper ws"
proof (induction ls arbitrary: ws rule: proper.induct)
  case 1
  then show ?case by simp
next
  case (2 l)
  then obtain w where ws: "ws = [w]" and b: "same_breaks w l"
    by (auto simp: list_all2_Cons2)
  from 2(2) same_breaks_line(1,2) [OF b] ws show ?case by simp
next
  case (3 l m ls)
  then obtain w ws' where ws: "ws = w # ws'" and b: "same_breaks w l"
    and r: "list_all2 same_breaks ws' (m # ls)"
    by (auto simp: list_all2_Cons2)
  from r obtain v vs where ws': "ws' = v # vs" by (auto simp: list_all2_Cons2)
  from 3(3) have l: "l \<noteq> []" and p: "proper (m # ls)" by simp_all
  from 3(1) [OF r p] have "proper ws'" .
  with 3(3) same_breaks_line(1,2) [OF b] same_breaks_line(3) [OF b l] ws ws'
  show ?case by simp
qed

lemma proper_take: "proper ls \<Longrightarrow> proper (take k ls)"
proof (induction ls arbitrary: k rule: proper.induct)
  case 1
  show ?case by simp
next
  case (2 l)
  then show ?case by (cases k) simp_all
next
  case (3 l m ls)
  show ?case
  proof (cases k)
    case 0
    then show ?thesis by simp
  next
    case (Suc k')
    from 3(2) have p: "proper (m # ls)" by simp
    from 3(1) [OF p, of k'] have t: "proper (take k' (m # ls))" .
    show ?thesis
    proof (cases k')
      case 0
      with Suc 3(2) show ?thesis by simp
    next
      case (Suc j)
      with t 3(2) \<open>k = Suc k'\<close> show ?thesis by simp
    qed
  qed
qed

lemma sub_chars: "set (myisam_re_sub ''InnoDB'' l) \<subseteq> set l \<union> set ''InnoDB''"
proof (induction "''InnoDB''" l rule: myisam_re_sub.induct)
  case 1
  show ?case by simp
next
  case (2 c s)
  show ?case
  proof (cases "myisam_at (c # s)")
    case True
    from 2(1) [OF True] set_drop_subset [of 5 s] True show ?thesis by auto
  next
    case False
    with 2(2) show ?thesis by auto
  qed
qed

lemma same_or_converted_no_cr:
  "same_or_converted w l \<Longrightarrow> carriage_return \<notin> set l \<Longrightarrow> carriage_return \<notin> set w"
  using sub_chars [of l] by (auto simp: same_or_converted_def carriage_return_def)

lemma list_all2_pick:
  "list_all2 P xs ys \<Longrightarrow> x \<in> set xs \<Longrightarrow> \<exists>y\<in>set ys. P x y"
  by (induction rule: list_all2_induct) auto

lemma reread_output:
  "readlines (concat (outfile (final (ProcessFiles (readlines c) excluded)))) =
     outfile (final (ProcessFiles (readlines c) excluded))"
proof -
  let ?ls = "readlines c"
  let ?out = "outfile (final (ProcessFiles ?ls excluded))"
  from loop_outfile [of excluded 0 ?ls init] ProcessFiles_final [of ?ls excluded]
  have c: "list_all2 same_or_converted ?out (take (length ?out) ?ls)"
    by (auto simp: init_def)
  then have "list_all2 same_breaks ?out (take (length ?out) ?ls)"
    by (rule list_all2_mono) (rule same_or_converted_breaks)
  moreover have "proper (take (length ?out) ?ls)"
    using readlines_proper [of c] by (simp add: proper_take)
  ultimately have p: "proper ?out" by (rule proper_same_breaks)
  have "\<forall>l\<in>set ?out. carriage_return \<notin> set l"
  proof
    fix w assume "w \<in> set ?out"
    with list_all2_pick [OF c] obtain l where
      "l \<in> set (take (length ?out) ?ls)" "same_or_converted w l"
      by blast
    with readlines_proper [of c] same_or_converted_no_cr [of w l]
    show "carriage_return \<notin> set w" by (auto dest: in_set_takeD)
  qed
  with p show ?thesis by (rule readlines_concat)
qed

section \<open>The sample inputs, evaluated\<close>

lemma appdb_loop: "loop [''MYSQL''] 0 appdb_dump init = Inr appdb_end"
  by code_simp

lemma appdb_markers:
  "database_re (appdb_dump ! 0) \<noteq> None" "table_re (appdb_dump ! 0) = None"
  "table_re (appdb_dump ! 2) = None"
  by code_simp+

lemma appdb_run:
  "ProcessFiles appdb_dump [''MYSQL''] =
     Inr (appdb_end\<lparr>logged := logged appdb_end @ [Summary 3 1 2]\<rparr>)"
  using appdb_loop by (simp add: ProcessFiles_def summary_def appdb_end_def)

lemma mysql_markers:
  "database_re mysql_marker = Some ''MySQL''" "database_re (mysql_tables ! 0) = None"
  "database_re (mysql_tables ! 1) = None"
  "upper ''mysql'' = Some ''MYSQL''" "upper ''MySQL'' = Some ''MYSQL''"
  by code_simp+

lemma preamble_markers:
  "database_re (preamble ! 0) = None" "table_re (preamble ! 0) = None"
  "database_re (preamble ! 1) = None" "table_re (preamble ! 1) = None"
  "table_re ''CREATE TABLE `t` (\<newline>'' \<noteq> None"
  by code_simp+

section \<open>The claims\<close>

text \<open>
  C1. Each line increments exactly one of the two counters. At every point of the stream
  (after the first \<open>k\<close> lines), \<open>changed + preserved\<close> is the number of lines written
  so far, which is \<open>k\<close> when no error has been raised; and when a run of \<open>N\<close> lines
  completes, \<open>changed + preserved = N\<close> and the summary reports \<open>N\<close> lines read with
  these two counters.
\<close>

theorem counters_add_up:
  "(\<forall>k\<le>length infile.
      changed (final (loop excluded 0 (take k infile) init)) +
        preserved (final (loop excluded 0 (take k infile) init)) =
        length (outfile (final (loop excluded 0 (take k infile) init))) \<and>
      (completed (loop excluded 0 (take k infile) init) \<longrightarrow>
         length (outfile (final (loop excluded 0 (take k infile) init))) = k)) \<and>
   (\<forall>s. ProcessFiles infile excluded = Inr s \<longrightarrow>
      changed s + preserved s = length infile \<and>
      last (logged s) = Summary (length infile) (changed s) (preserved s)) \<and>
   (\<forall>i line s s'. body excluded i line s = Inr s' \<longrightarrow>
      changed s' = changed s + 1 \<and> preserved s' = preserved s \<or>
      changed s' = changed s \<and> preserved s' = preserved s + 1)"
proof (intro conjI allI impI)
  fix k assume "k \<le> length infile"
  show "changed (final (loop excluded 0 (take k infile) init)) +
        preserved (final (loop excluded 0 (take k infile) init)) =
        length (outfile (final (loop excluded 0 (take k infile) init)))"
    by (rule loop_init_written)
next
  fix k assume "k \<le> length infile" and "completed (loop excluded 0 (take k infile) init)"
  then show "length (outfile (final (loop excluded 0 (take k infile) init))) = k"
    using loop_completed_length [of excluded "take k infile"] by simp
next
  fix s assume "ProcessFiles infile excluded = Inr s"
  then obtain t where t: "loop excluded 0 infile init = Inr t"
    and s: "s = t\<lparr>logged := logged t @ [Summary (length infile) (changed t) (preserved t)]\<rparr>"
    unfolding ProcessFiles_Inr by blast
  from t loop_init_written [of excluded infile] loop_completed_length [of excluded infile]
  have "changed t + preserved t = length infile" by simp
  with s show "changed s + preserved s = length infile"
    and "last (logged s) = Summary (length infile) (changed s) (preserved s)"
    by simp_all
next
  fix i line s s' assume "body excluded i line s = Inr s'"
  then show "changed s' = changed s + 1 \<and> preserved s' = preserved s \<or>
      changed s' = changed s \<and> preserved s' = preserved s + 1"
    by (rule body_kinds)
qed

text \<open>The sample dump completes; its first two lines do, too.\<close>

theorem counters_add_up_witness:
  "2 \<le> length appdb_dump \<and>
   completed (loop [''MYSQL''] 0 (take 2 appdb_dump) init) \<and>
   length (outfile (final (loop [''MYSQL''] 0 (take 2 appdb_dump) init))) = 2 \<and>
   completed (ProcessFiles appdb_dump [''MYSQL'']) \<and>
   changed (final (ProcessFiles appdb_dump [''MYSQL''])) +
     preserved (final (ProcessFiles appdb_dump [''MYSQL''])) = length appdb_dump"
proof -
  have len: "2 \<le> length appdb_dump" by (simp add: appdb_dump_def)
  have two: "completed (loop [''MYSQL''] 0 (take 2 appdb_dump) init)" by code_simp
  note t = counters_add_up [of appdb_dump "[''MYSQL'']"]
  from t len two
  have "length (outfile (final (loop [''MYSQL''] 0 (take 2 appdb_dump) init))) = 2"
    by blast
  moreover from t appdb_run
  have "changed (final (ProcessFiles appdb_dump [''MYSQL''])) +
     preserved (final (ProcessFiles appdb_dump [''MYSQL''])) = length appdb_dump"
    by simp
  ultimately show ?thesis using len two appdb_run by simp
qed

text \<open>
  C2. Let \<open>names\<close> be the list of excluded schemas, passed to \<open>ProcessFiles\<close> upper-cased
  as the script does. If the name on a schema marker equals one of them up to letter case
  (same upper-case form), then the marker line and every line after it up to the next
  schema marker is written unchanged and counted as preserved, whatever the state before
  the marker and whether or not a line names the engine; no line is changed and no error
  is raised.
\<close>

theorem excluded_schema_untouched:
  assumes "e \<in> set names" and "upper e = Some u" and "upper name = Some u"
    and "database_re marker = Some name" and "\<forall>l\<in>set seg. database_re l = None"
  shows "\<exists>s'. loop (List.map_filter upper names) i (marker # seg) s = Inr s' \<and>
           outfile s' = outfile s @ marker # seg \<and>
           preserved s' = preserved s + length (marker # seg) \<and> changed s' = changed s"
proof -
  let ?ex = "List.map_filter upper names"
  from assms(1,2) have "u \<in> set ?ex"
    by (auto simp: List.map_filter_def intro!: image_eqI [of _ _ e])
  with assms(3) have ex: "upper_in name ?ex" by (simp add: upper_in_def)
  from assms(4) have "database_re marker = Some name \<or>
      database_re marker = None \<and> database s = Some name \<and> isexcluded s" by simp
  from body_excluded [OF this ex, of i] obtain t where
    t: "body ?ex i marker s = Inr t" "outfile t = outfile s @ [marker]"
      "preserved t = preserved s + 1" "changed t = changed s" "database t = Some name"
      "isexcluded t"
    by blast
  from loop_excluded [OF assms(5) t(5,6) ex, of "i + 1"] t show ?thesis by auto
qed

text \<open>The schema \<open>MySQL\<close> against the list \<open>['mysql']\<close> of the script.\<close>

theorem excluded_schema_untouched_witness:
  "\<exists>s'. loop (List.map_filter upper [''mysql'']) 0 (mysql_marker # mysql_tables) init = Inr s' \<and>
      outfile s' = mysql_marker # mysql_tables \<and> preserved s' = 3 \<and> changed s' = 0"
proof -
  have seg: "\<forall>l\<in>set mysql_tables. database_re l = None"
    using mysql_markers(2,3) by (simp add: mysql_tables_def)
  have "''mysql'' \<in> set [''mysql'']" by simp
  from excluded_schema_untouched [OF this mysql_markers(4,5,1) seg, of 0 init]
  obtain s' where s: "loop (List.map_filter upper [''mysql'']) 0 (mysql_marker # mysql_tables) init = Inr s'"
    "outfile s' = outfile init @ mysql_marker # mysql_tables"
    "preserved s' = preserved init + length (mysql_marker # mysql_tables)"
    "changed s' = changed init"
    by blast
  from s(2) have "outfile s' = mysql_marker # mysql_tables" by (simp add: init_def)
  moreover from s(3) have "preserved s' = 3" by (simp add: init_def mysql_tables_def)
  moreover from s(4) have "changed s' = 0" by (simp add: init_def)
  ultimately show ?thesis using s(1) by blast
qed

text \<open>
  C3. For a line of a schema that is not excluded and that names the engine, the line
  written is the converted one (\<open>write_line_converts\<close>; \<open>sub_no_match\<close>,
  \<open>sub_length\<close> and \<open>sub_positions\<close> say what the conversion is) only when a table
  marker has bound \<open>table\<close> on an earlier line. Here no table marker precedes the
  line: the second line belongs to \<open>appdb\<close>, which is not excluded, and names the
  engine, yet the run raises \<open>UnboundLocalError\<close> while formatting the message of line
  103 and writes nothing for it.
\<close>

theorem changed_line_needs_table:
  "ProcessFiles [''CREATE DATABASE `appdb`;\<newline>'', '') engine=myisam;\<newline>''] [''MYSQL''] =
     Inl (UnboundLocalError ''table'',
          \<lparr>loop_n = Some 1, database = Some ''appdb'', table = None, isexcluded = False,
           preserved = 1, changed = 0, outfile = [''CREATE DATABASE `appdb`;\<newline>''],
           logged = [FoundDatabase 1 ''appdb'' False]\<rparr>)"
  by code_simp

text \<open>
  C4. The transform is idempotent: a second run over what the first run wrote, with the
  same exclusion list, writes exactly the same lines and changes none of them. This
  holds for every input and every exclusion list, also when the first run ends in an
  error (the second run then reads the lines written before the error). The lines a
  second run reads are the lines the first wrote: the output of a run over the lines of
  any file, stored and read back, is that list of lines.
\<close>

theorem second_run_identical:
  "outfile (final (ProcessFiles (outfile (final (ProcessFiles infile excluded))) excluded)) =
     outfile (final (ProcessFiles infile excluded)) \<and>
   changed (final (ProcessFiles (outfile (final (ProcessFiles infile excluded))) excluded)) = 0 \<and>
   readlines (concat (outfile (final (ProcessFiles (readlines contents) excluded)))) =
     outfile (final (ProcessFiles (readlines contents) excluded))"
proof -
  let ?out = "outfile (final (loop excluded 0 infile init))"
  have "?out = outfile init @ ?out" by (simp add: init_def)
  from loop_rerun [OF rerun_inv_init this, of 0] obtain t where
    "loop excluded 0 ?out init = Inr t" "outfile t = outfile init @ ?out" "changed t = changed init"
    by blast
  then have "outfile (final (ProcessFiles (outfile (final (ProcessFiles infile excluded))) excluded)) =
      outfile (final (ProcessFiles infile excluded))"
    and "changed (final (ProcessFiles (outfile (final (ProcessFiles infile excluded))) excluded)) = 0"
    by (simp_all add: ProcessFiles_final init_def)
  with reread_output [of contents excluded] show ?thesis by (simp only: simp_thms)
qed

text \<open>
  What holds of the lines written on every input: they correspond one to one, in order,
  to the first lines of the input, each the input line or its conversion; none is inserted
  or reordered. When the loop raises no error, as many lines are written as were read.
\<close>

lemma output_lines_correspond:
  "length (outfile (final (ProcessFiles infile excluded))) \<le> length infile \<and>
   list_all2 same_or_converted (outfile (final (ProcessFiles infile excluded)))
     (take (length (outfile (final (ProcessFiles infile excluded)))) infile) \<and>
   (completed (loop excluded 0 infile init) \<longrightarrow>
      length (outfile (final (ProcessFiles infile excluded))) = length infile)"
  using loop_outfile [of excluded 0 infile init] ProcessFiles_final [of infile excluded]
  by (auto simp: init_def)

text \<open>
  C5. The output does not always have as many lines as the input: an exception ends the
  loop and the lines from that line on are dropped. A dump of a single database, which
  has no schema marker, stops at its first table marker with \<open>AttributeError\<close>
  (\<open>database\<close> is \<open>None\<close> at line 81 and dereferenced at line 97) and nothing written;
  and a dump whose schema marker comes first stops at a line naming the engine ahead of
  every table marker with \<open>UnboundLocalError\<close> (\<open>table\<close> is unbound at line 103), one
  line written for two read.
\<close>

theorem lines_dropped_after_error:
  "ProcessFiles [''CREATE TABLE `t` (\<newline>'', '') ENGINE=MyISAM;\<newline>''] [''MYSQL''] =
     Inl (AttributeError,
          \<lparr>loop_n = Some 0, database = None, table = Some ''t'', isexcluded = True,
           preserved = 0, changed = 0, outfile = [], logged = []\<rparr>) \<and>
   length (outfile (final (ProcessFiles
      [''CREATE DATABASE `appdb`;\<newline>'', '') ENGINE=MyISAM;\<newline>''] [''MYSQL''])))
     = 1"
  by code_simp

text \<open>
  C6. On the two lines of scenario A the run does not complete: the second line is not
  excluded and names the engine, no table marker has bound \<open>table\<close>, and formatting the
  message of line 103 raises \<open>UnboundLocalError\<close> before the write. Only the first line
  is written and \<open>changed\<close> stays 0; run as a script on the file of these two lines, the
  output file holds the first line only.
\<close>

theorem scenario_A_raises:
  "ProcessFiles [''CREATE DATABASE `appdb`;'', '') ENGINE=MyISAM;''] [''MYSQL''] =
     Inl (UnboundLocalError ''table'',
          \<lparr>loop_n = Some 1, database = Some ''appdb'', table = None, isexcluded = False,
           preserved = 1, changed = 0, outfile = [''CREATE DATABASE `appdb`;''],
           logged = [FoundDatabase 1 ''appdb'' False]\<rparr>) \<and>
   raised (main \<lparr>verbose = False, force = False, input_arg = ''dump.sql'', output_arg = ''out.sql''\<rparr>
             [''dump.sql'' \<mapsto> ''CREATE DATABASE `appdb`;\<newline>) ENGINE=MyISAM;\<newline>''])
     = Some (UnboundLocalError ''table'') \<and>
   files (main \<lparr>verbose = False, force = False, input_arg = ''dump.sql'', output_arg = ''out.sql''\<rparr>
             [''dump.sql'' \<mapsto> ''CREATE DATABASE `appdb`;\<newline>) ENGINE=MyISAM;\<newline>''])
       ''out.sql''
     = Some ''CREATE DATABASE `appdb`;\<newline>''"
  by code_simp

text \<open>
  C7, as amended. If the output path exists and \<open>--force\<close> is not given, the script logs
  the error, opens neither file, leaves every file as it was, raises nothing and runs to
  its end: the exit status is 0.
\<close>

theorem conflict_aborts:
  assumes "fs (output_arg a) \<noteq> None" and "\<not> force a"
  shows "files (main a fs) = fs \<and> opened (main a fs) = [] \<and>
         last (messages (main a fs)) = AlreadyExists (output_arg a) \<and>
         raised (main a fs) = None \<and> exit_status (main a fs) = 0"
  using assms by (simp add: main_def Let_def)

text \<open>The sample call: \<open>out.sql\<close> exists and keeps its contents.\<close>

theorem conflict_aborts_witness:
  "files (main conflict_args conflict_fs) = conflict_fs \<and>
   opened (main conflict_args conflict_fs) = [] \<and>
   last (messages (main conflict_args conflict_fs)) = AlreadyExists ''out.sql'' \<and>
   raised (main conflict_args conflict_fs) = None"
proof -
  have "conflict_fs (output_arg conflict_args) \<noteq> None" "\<not> force conflict_args"
    by (simp_all add: conflict_fs_def conflict_args_def)
  from conflict_aborts [of conflict_fs conflict_args, OF this] show ?thesis
    by (simp add: conflict_args_def)
qed

text \<open>
  Without the amendment the claim fails in its last part: with the output path taken and
  no \<open>--force\<close>, the exit status is 0, which does not indicate failure.
\<close>

theorem conflict_exit_status_counterexample:
  "conflict_fs (output_arg conflict_args) \<noteq> None \<and> \<not> force conflict_args \<and>
   exit_status (main conflict_args conflict_fs) = 0"
  by (simp add: main_def conflict_fs_def conflict_args_def Let_def)

text \<open>
  C8. The exclusion flag starts as true, and while no schema marker and no table marker
  has been seen every line is written unchanged and counted as preserved, whether or not
  it names the engine.
\<close>

theorem preamble_preserved:
  assumes "\<forall>l\<in>set pre. database_re l = None \<and> table_re l = None"
  shows "isexcluded init \<and>
         (\<exists>s. loop excluded 0 pre init = Inr s \<and> outfile s = pre \<and>
              preserved s = length pre \<and> changed s = 0 \<and> isexcluded s)"
  using loop_preamble [OF assms, of init excluded 0] by (auto simp: init_def)

text \<open>Two lines ahead of every marker, both naming the engine.\<close>

theorem preamble_preserved_witness:
  "\<exists>s. loop [''MYSQL''] 0 preamble init = Inr s \<and> outfile s = preamble \<and>
      preserved s = 2 \<and> changed s = 0 \<and> isexcluded s"
proof -
  have "\<forall>l\<in>set preamble. database_re l = None \<and> table_re l = None"
    using preamble_markers by (simp add: preamble_def)
  moreover have "length preamble = 2" by (simp add: preamble_def)
  ultimately show ?thesis using preamble_preserved [of preamble "[''MYSQL'']"] by simp
qed

text \<open>
  C9. If the first marker of the input is a table marker, the run fails on that line with
  \<open>AttributeError\<close> (\<open>database\<close> is still \<open>None\<close>), having written the lines before it
  and nothing for the line itself. If every table marker has a schema marker on an earlier
  line, the run never ends in that error.
\<close>

theorem table_before_schema_fails:
  "((\<forall>l\<in>set pre. database_re l = None \<and> table_re l = None) \<longrightarrow> table_re line \<noteq> None \<longrightarrow>
      (\<exists>s. loop excluded 0 (pre @ line # rest) init = Inl (AttributeError, s) \<and>
           outfile s = pre \<and>
           ProcessFiles (pre @ line # rest) excluded = Inl (AttributeError, s))) \<and>
   ((\<forall>k<length infile. table_re (infile ! k) \<noteq> None \<longrightarrow>
        (\<exists>j<k. database_re (infile ! j) \<noteq> None)) \<longrightarrow>
      (\<forall>s. ProcessFiles infile excluded \<noteq> Inl (AttributeError, s)))"
proof (intro conjI impI allI)
  assume pre: "\<forall>l\<in>set pre. database_re l = None \<and> table_re l = None"
    and line: "table_re line \<noteq> None"
  from loop_preamble [OF pre, of init excluded 0] obtain t where
    t: "loop excluded 0 pre init = Inr t" "outfile t = pre" "database t = None"
    by (auto simp: init_def)
  from line obtain n where "table_re line = Some n" by auto
  from body_table_first [OF this t(3), of excluded "length pre"] t(1,2)
  have "loop excluded 0 (pre @ line # rest) init =
          Inl (AttributeError, t\<lparr>loop_n := Some (length pre), table := Some n\<rparr>)"
    by (simp add: loop_append)
  with t(2) show "\<exists>s. loop excluded 0 (pre @ line # rest) init = Inl (AttributeError, s) \<and>
      outfile s = pre \<and> ProcessFiles (pre @ line # rest) excluded = Inl (AttributeError, s)"
    by (simp add: ProcessFiles_def)
next
  fix s
  assume "\<forall>k<length infile. table_re (infile ! k) \<noteq> None \<longrightarrow>
        (\<exists>j<k. database_re (infile ! j) \<noteq> None)"
  then have "schema_first infile" by (simp add: schema_first_def)
  then have "loop excluded 0 infile init \<noteq> Inl (AttributeError, s)"
    by (simp add: loop_no_AttributeError)
  then show "ProcessFiles infile excluded \<noteq> Inl (AttributeError, s)"
    by (auto simp: ProcessFiles_def summary_def split: sum.splits option.splits)
qed

text \<open>
  A table marker behind the sample preamble; the sample dump, whose table marker follows
  its schema marker.
\<close>

theorem table_before_schema_fails_witness:
  "(\<exists>s. loop [''MYSQL''] 0 (preamble @ [''CREATE TABLE `t` (\<newline>'']) init =
          Inl (AttributeError, s) \<and> outfile s = preamble) \<and>
   (\<forall>s. ProcessFiles appdb_dump [''MYSQL''] \<noteq> Inl (AttributeError, s))"
proof -
  have pre: "\<forall>l\<in>set preamble. database_re l = None \<and> table_re l = None"
    using preamble_markers by (simp add: preamble_def)
  have ord: "\<forall>k<length appdb_dump. table_re (appdb_dump ! k) \<noteq> None \<longrightarrow>
      (\<exists>j<k. database_re (appdb_dump ! j) \<noteq> None)"
  proof (intro allI impI)
    fix k assume "k < length appdb_dump" and t: "table_re (appdb_dump ! k) \<noteq> None"
    then have "k = 0 \<or> k = 1 \<or> k = 2" by (auto simp: appdb_dump_def)
    with t appdb_markers show "\<exists>j<k. database_re (appdb_dump ! j) \<noteq> None" by auto
  qed
  note t = table_before_schema_fails [of preamble "''CREATE TABLE `t` (\<newline>''"
      "[''MYSQL'']" "[]" appdb_dump]
  from t pre preamble_markers(5) ord show ?thesis by blast
qed

text \<open>
  C10. On the empty input the run fails at the summary with \<open>UnboundLocalError\<close>, the
  loop variable \<open>n\<close> never having been bound, and logs nothing. A run that completes has
  read at least one line, ends with \<open>n\<close> the index of the last line and reports
  \<open>n + 1\<close> lines read; and whenever the loop over a non-empty input ends without error,
  the summary is produced.
\<close>

theorem summary_needs_a_line:
  "ProcessFiles [] excluded = Inl (UnboundLocalError ''n'', init) \<and>
   (\<forall>s. ProcessFiles infile excluded = Inr s \<longrightarrow>
      infile \<noteq> [] \<and> loop_n s = Some (length infile - 1) \<and>
      last (logged s) = Summary (length infile) (changed s) (preserved s)) \<and>
   (\<forall>t. infile \<noteq> [] \<longrightarrow> loop excluded 0 infile init = Inr t \<longrightarrow>
      ProcessFiles infile excluded =
        Inr (t\<lparr>logged := logged t @ [Summary (length infile) (changed t) (preserved t)]\<rparr>))"
proof (intro conjI allI impI)
  show "ProcessFiles [] excluded = Inl (UnboundLocalError ''n'', init)"
    by (simp add: ProcessFiles_def summary_def init_def)
next
  fix s assume "ProcessFiles infile excluded = Inr s"
  then obtain t where t: "loop excluded 0 infile init = Inr t" "infile \<noteq> []"
    and s: "s = t\<lparr>logged := logged t @ [Summary (length infile) (changed t) (preserved t)]\<rparr>"
    unfolding ProcessFiles_Inr by blast
  from loop_completed_n [OF t] s t(2)
  show "infile \<noteq> []" and "loop_n s = Some (length infile - 1)"
    and "last (logged s) = Summary (length infile) (changed s) (preserved s)"
    by simp_all
next
  fix t assume "infile \<noteq> []" and "loop excluded 0 infile init = Inr t"
  then show "ProcessFiles infile excluded =
        Inr (t\<lparr>logged := logged t @ [Summary (length infile) (changed t) (preserved t)]\<rparr>)"
    using ProcessFiles_Inr [of infile excluded] by simp
qed

text \<open>The sample dump: \<open>n = 2\<close>, three lines reported.\<close>

theorem summary_needs_a_line_witness:
  "appdb_dump \<noteq> [] \<and> completed (ProcessFiles appdb_dump [''MYSQL'']) \<and>
   loop_n (final (ProcessFiles appdb_dump [''MYSQL''])) = Some 2 \<and>
   last (logged (final (ProcessFiles appdb_dump [''MYSQL'']))) = Summary 3 1 2"
proof -
  have ne: "appdb_dump \<noteq> []" by (simp add: appdb_dump_def)
  from summary_needs_a_line [of "[''MYSQL'']" appdb_dump] ne appdb_loop
  have "ProcessFiles appdb_dump [''MYSQL''] =
      Inr (appdb_end\<lparr>logged := logged appdb_end @
        [Summary (length appdb_dump) (changed appdb_end) (preserved appdb_end)]\<rparr>)"
    by blast
  then show ?thesis using ne by (simp add: appdb_end_def appdb_dump_def)
qed

end
